theory Spec2Isabelle
  imports Complex_Main "HOL-Library.Word" "HOL-Library.Signed_Division"
begin

section \<open>The Mancala rules engine of mancala.cc\<close>

text \<open>
  The C++ class \<open>MancalaState\<close> is embedded as a record, its member functions as
  functions on that record. A C++ \<open>int\<close> is a 32-bit word read through \<open>sint\<close>, so that
  \<open>++\<close> and \<open>+=\<close> wrap around as the compiled code does. An \<open>Action\<close> is a 64-bit
  integer in the source; the functions below only compute with actions that have passed the
  array bound, where \<open>move + i + 1\<close> stays far below \<open>2^63\<close>, so an action is an \<open>int\<close>.
  Reading or writing \<open>board_\<close> outside its bounds and \<open>pop_back\<close> on an empty vector have
  no defined behaviour in C++; the model returns a fault value there.
\<close>

subsection \<open>Constants and data\<close>

type_synonym cint = "32 word"
type_synonym Action = int
type_synonym Player = cint

text \<open>
  Modelled from the spec: the header mancala.h with the constants is not part of the sources.
  The spec fixes six row pits for each player and a ring of 14 pits.
\<close>

definition kNumPits :: nat where
  "kNumPits = 6"

definition kTotalPits :: nat where
  "kTotalPits = 14"

datatype fault = OutOfBounds | PopEmpty

text \<open>
  Modelled from the spec: the declarations of the members are in the header and in the
  framework's \<open>State\<close>, which are not part of the sources. \<open>board\<close>, \<open>current_player\<close> and
  \<open>num_moves\<close> are the members \<open>board_\<close>, \<open>current_player_\<close> and \<open>num_moves_\<close> of
  \<open>MancalaState\<close>; \<open>history\<close> and \<open>move_number\<close> are the members \<open>history_\<close> and
  \<open>move_number_\<close> that \<open>UndoAction\<close> rewinds, a history entry being the mover and the action.
  The board is an array of \<open>kTotalPits\<close> integer bean counts: the theorems below assume
  that length.
\<close>

record MancalaState =
  board :: "cint list"
  current_player :: Player
  num_moves :: cint
  history :: "(Player \<times> Action) list"
  move_number :: cint

subsection \<open>GetPlayerHomePit, DoApplyAction\<close>

definition GetPlayerHomePit :: "Player \<Rightarrow> int" where
  "GetPlayerHomePit player = (if player = 0 then int (kTotalPits div 2) else 0)"

text \<open>
  The loop \<open>for (int i = 0; i < num_beans; ++i) board_[(move + i + 1) % kTotalPits]++\<close>.
  The operator \<open>%\<close> of C++ truncates towards zero: it is \<open>smod\<close>.
\<close>

function sow_loop :: "cint list \<Rightarrow> Action \<Rightarrow> int \<Rightarrow> int \<Rightarrow> cint list" where
  "sow_loop b move i num_beans =
     (if i < num_beans
      then sow_loop
             (b[nat ((move + i + 1) smod int kTotalPits) :=
                  b ! nat ((move + i + 1) smod int kTotalPits) + 1])
             move (i + 1) num_beans
      else b)"
  by pat_completeness auto
termination
  by (relation "measure (\<lambda>(b, move, i, num_beans). nat (num_beans - i))") auto

declare sow_loop.simps [simp del]

definition DoApplyAction :: "Action \<Rightarrow> MancalaState \<Rightarrow> fault + MancalaState" where
  "DoApplyAction move s =
     (if move < 0 \<or> int (length (board s)) \<le> move then Inl OutOfBounds
      else
        let num_beans = sint (board s ! nat move);
            b0 = (board s)[nat move := 0];
            b1 = sow_loop b0 move 0 num_beans;
            p = (if (move + num_beans) smod int kTotalPits \<noteq> GetPlayerHomePit (current_player s)
                 then 1 - current_player s
                 else current_player s)
        in Inr (s\<lparr>board := b1, current_player := p, num_moves := num_moves s + 1\<rparr>))"

subsection \<open>IsTerminal, LegalActions\<close>

text \<open>The two scanning loops of \<open>IsTerminal\<close>, each leaving at the first pit that holds a bean.\<close>

function player_1_has_moves :: "cint list \<Rightarrow> nat \<Rightarrow> bool" where
  "player_1_has_moves b i =
     (if i < kNumPits
      then (if 0 < sint (b ! (length b - 1 - i)) then True else player_1_has_moves b (i + 1))
      else False)"
  by pat_completeness auto
termination
  by (relation "measure (\<lambda>(b, i). kNumPits - i)") auto

function player_0_has_moves :: "cint list \<Rightarrow> nat \<Rightarrow> bool" where
  "player_0_has_moves b i =
     (if i < kNumPits
      then (if 0 < sint (b ! (i + 1)) then True else player_0_has_moves b (i + 1))
      else False)"
  by pat_completeness auto
termination
  by (relation "measure (\<lambda>(b, i). kNumPits - i)") auto

declare player_1_has_moves.simps [simp del]
declare player_0_has_moves.simps [simp del]

definition IsTerminal :: "MancalaState \<Rightarrow> bool" where
  "IsTerminal s =
     (let p1 = player_1_has_moves (board s) 0;
          p0 = player_0_has_moves (board s) 0
      in \<not> p0 \<or> \<not> p1)"

definition LegalActions :: "MancalaState \<Rightarrow> Action list" where
  "LegalActions s =
     (if IsTerminal s then []
      else if current_player s = 0
      then fold (\<lambda>i moves. if 0 < sint (board s ! (i + 1))
                            then moves @ [int (i + 1)] else moves)
                [0..<kNumPits] []
      else fold (\<lambda>i moves. if 0 < sint (board s ! (length (board s) - 1 - i))
                            then moves @ [int (length (board s) - 1 - i)] else moves)
                [0..<kNumPits] [])"

subsection \<open>InitBoard and the constructor\<close>

definition InitBoard :: "MancalaState \<Rightarrow> MancalaState" where
  "InitBoard s =
     (let b = replicate (length (board s)) 4;
          b = b[0 := 0];
          b = b[length b div 2 := 0]
      in s\<lparr>board := b\<rparr>)"

text \<open>
  Modelled from the spec: the member initialisers of the header are not part of the sources.
  The spec has player 0 to move on the initial board; the counters start at 0.
\<close>

definition NewInitialState :: MancalaState where
  "NewInitialState =
     InitBoard \<lparr>board = replicate kTotalPits 0, current_player = 0, num_moves = 0,
                history = [], move_number = 0\<rparr>"

subsection \<open>Returns\<close>

text \<open>\<open>std::accumulate(board_.begin() + fst_pos, board_.begin() + lst_pos, init)\<close>.\<close>

definition accumulate :: "cint list \<Rightarrow> nat \<Rightarrow> nat \<Rightarrow> cint \<Rightarrow> cint" where
  "accumulate b fst_pos lst_pos init = foldl (+) init (take (lst_pos - fst_pos) (drop fst_pos b))"

definition player_0_bean_sum :: "MancalaState \<Rightarrow> cint" where
  "player_0_bean_sum s = accumulate (board s) 1 (kTotalPits div 2 + 1) 0"

definition player_1_bean_sum :: "MancalaState \<Rightarrow> cint" where
  "player_1_bean_sum s =
     accumulate (board s) (kTotalPits div 2 + 1) (length (board s)) 0 + board s ! 0"

definition Returns :: "MancalaState \<Rightarrow> real list" where
  "Returns s =
     (if sint (player_0_bean_sum s) > sint (player_1_bean_sum s) then [1, - 1]
      else if sint (player_0_bean_sum s) < sint (player_1_bean_sum s) then [- 1, 1]
      else [0, 0])"

subsection \<open>UndoAction\<close>

definition UndoAction :: "Player \<Rightarrow> Action \<Rightarrow> MancalaState \<Rightarrow> fault + MancalaState" where
  "UndoAction player move s =
     (if history s = [] then Inl PopEmpty
      else Inr (s\<lparr>num_moves := num_moves s - 1,
                  history := butlast (history s),
                  move_number := move_number s - 1\<rparr>))"

subsection \<open>Play from a state\<close>

text \<open>
  \<open>play s as\<close> applies the actions \<open>as\<close> in turn with \<open>DoApplyAction\<close>, each of which has to
  be among the legal actions of the state it is applied to. The states reachable from \<open>s\<close>
  by legal actions are the values \<open>Some s'\<close> of \<open>play s\<close>.
\<close>

fun play :: "MancalaState \<Rightarrow> Action list \<Rightarrow> MancalaState option" where
  "play s [] = Some s"
| "play s (a # as) =
     (if a \<in> set (LegalActions s)
      then (case DoApplyAction a s of Inl e \<Rightarrow> None | Inr s' \<Rightarrow> play s' as)
      else None)"

subsection \<open>The notions of the specification\<close>

text \<open>
  The definitions of this subsection follow the words of the specification, not the code;
  the theorems below compare the code with them.
\<close>

text \<open>The pits of a list of candidates that hold at least one bean, in the order of the list.\<close>

definition nonempty_pits :: "MancalaState \<Rightarrow> Action list \<Rightarrow> Action list" where
  "nonempty_pits s pits = filter (\<lambda>a. 0 < sint (board s ! nat a)) pits"

text \<open>
  The scores as sums of integers: \<open>score0\<close> over the pits 1 to 7, \<open>score1\<close> over the pits
  8 to 13 and pit 0; the range of a C++ \<open>int\<close>.
\<close>

definition score0 :: "MancalaState \<Rightarrow> int" where
  "score0 s = sum_list (map (\<lambda>i. sint (board s ! i)) [1..<8])"

definition score1 :: "MancalaState \<Rightarrow> int" where
  "score1 s = sum_list (map (\<lambda>i. sint (board s ! i)) [8..<14]) + sint (board s ! 0)"

definition fits_cint :: "int \<Rightarrow> bool" where
  "fits_cint x \<longleftrightarrow> - (2 ^ 31) \<le> x \<and> x < 2 ^ 31"

text \<open>
  The value a C++ \<open>int\<close> holds once the integer \<open>x\<close> is stored in it, modulo \<open>2^32\<close> in two's
  complement. It is \<open>x\<close> itself when \<open>fits_cint x\<close>.
\<close>

definition as_cint :: "int \<Rightarrow> int" where
  "as_cint x = sint (word_of_int x :: cint)"

text \<open>
  Sowing in the words of the specification: the pit is emptied, then for \<open>i\<close> from \<open>0\<close> to
  \<open>n - 1\<close> the pit at ring position \<open>(p + i + 1) mod 14\<close> is incremented. \<open>visits p n q\<close>
  counts how many of these \<open>n\<close> ring positions are the pit \<open>q\<close>.
\<close>

definition ring_position :: "nat \<Rightarrow> nat \<Rightarrow> nat" where
  "ring_position p i = (p + i + 1) mod 14"

definition increment_pit :: "nat \<Rightarrow> cint list \<Rightarrow> cint list" where
  "increment_pit q b = b[q := b ! q + 1]"

definition sow_spec :: "cint list \<Rightarrow> nat \<Rightarrow> cint list" where
  "sow_spec b p =
     fold (\<lambda>i. increment_pit (ring_position p i)) [0..<nat (sint (b ! p))] (b[p := 0])"

definition visits :: "nat \<Rightarrow> nat \<Rightarrow> nat \<Rightarrow> nat" where
  "visits p n q = length (filter (\<lambda>i. ring_position p i = q) [0..<n])"

text \<open>The sum of all pit counts, and the invariant of the board.\<close>

definition total_beans :: "MancalaState \<Rightarrow> int" where
  "total_beans s = sum_list (map sint (board s))"

definition conserved :: "MancalaState \<Rightarrow> bool" where
  "conserved s \<longleftrightarrow>
     length (board s) = kTotalPits \<and> total_beans s = 48 \<and> (\<forall>x\<in>set (board s). 0 \<le> sint x)"

section \<open>Properties\<close>

subsection \<open>The ring and the sowing loop\<close>

lemma sow_loop_done: "num_beans \<le> i \<Longrightarrow> sow_loop b move i num_beans = b"
  by (simp add: sow_loop.simps)

lemma ring_pos_self: "0 \<le> p \<Longrightarrow> p < 14 \<Longrightarrow> p smod int kTotalPits = p"
  by (simp add: kTotalPits_def smod_mod_positive)

lemma ring_pos_mod: "0 \<le> x \<Longrightarrow> x smod int kTotalPits = x mod 14"
  by (simp add: kTotalPits_def smod_mod_positive)

lemma ring_position_index:
  assumes "0 \<le> move" and "0 \<le> i"
  shows "nat ((move + i + 1) smod int kTotalPits) = ring_position (nat move) (nat i)"
  using assms by (simp add: ring_pos_mod nat_mod_distrib nat_add_distrib ring_position_def)

lemma length_increment_pit [simp]: "length (increment_pit q b) = length b"
  by (simp add: increment_pit_def)

lemma sow_loop_fold:
  assumes "0 \<le> move" and "0 \<le> i"
  shows "sow_loop b move i n =
           fold (\<lambda>k. increment_pit (ring_position (nat move) k)) [nat i..<nat n] b"
  using assms
proof (induction b move i n rule: sow_loop.induct)
  case (1 b move i n)
  show ?case
  proof (cases "i < n")
    case False
    then show ?thesis by (simp add: sow_loop_done)
  next
    case True
    let ?q = "nat ((move + i + 1) smod int kTotalPits)"
    have q: "?q = ring_position (nat move) (nat i)"
      using "1.prems" by (rule ring_position_index)
    have "sow_loop b move i n = sow_loop (b[?q := b ! ?q + 1]) move (i + 1) n"
      using True by (subst sow_loop.simps) simp
    also have "\<dots> = fold (\<lambda>k. increment_pit (ring_position (nat move) k))
                       [nat (i + 1)..<nat n] (b[?q := b ! ?q + 1])"
      using "1.IH" [OF True] "1.prems" by simp
    also have "b[?q := b ! ?q + 1] = increment_pit (ring_position (nat move) (nat i)) b"
      by (simp only: q increment_pit_def)
    also have "nat (i + 1) = Suc (nat i)"
      using "1.prems" by simp
    finally show ?thesis
      using True "1.prems" by (simp add: upt_conv_Cons)
  qed
qed

lemma length_fold_increment [simp]:
  "length (fold (\<lambda>k. increment_pit (f k)) ks b) = length b"
  by (induction ks arbitrary: b) simp_all

lemma visits_Suc:
  "visits p (Suc n) q = visits p n q + (if ring_position p n = q then 1 else 0)"
  by (simp add: visits_def)

lemma nth_fold_increment:
  assumes "length b = 14" and "q < 14"
  shows "fold (\<lambda>k. increment_pit (ring_position p k)) [0..<n] b ! q =
           b ! q + of_nat (visits p n q)"
proof (induction n)
  case 0
  then show ?case by (simp add: visits_def)
next
  case (Suc n)
  let ?b = "fold (\<lambda>k. increment_pit (ring_position p k)) [0..<n] b"
  have "ring_position p n < length ?b"
    using assms(1) by (simp add: ring_position_def)
  then have "increment_pit (ring_position p n) ?b ! q =
      (if ring_position p n = q then ?b ! q + 1 else ?b ! q)"
    by (auto simp: increment_pit_def)
  then show ?case
    using Suc.IH by (simp add: visits_Suc)
qed

subsection \<open>Sums of pit counts\<close>

lemma sum_list_update_int:
  "i < length xs \<Longrightarrow> sum_list (xs[i := v]) = sum_list xs - xs ! i + v" for xs :: "int list"
  by (induction xs arbitrary: i) (auto split: nat.splits)

lemma nth_le_sum_list_int:
  "\<forall>x\<in>set xs. 0 \<le> x \<Longrightarrow> i < length xs \<Longrightarrow> xs ! i \<le> sum_list xs" for xs :: "int list"
proof (induction xs arbitrary: i)
  case Nil
  then show ?case by simp
next
  case (Cons x xs)
  show ?case
  proof (cases i)
    case 0
    have "0 \<le> sum_list xs"
      using Cons.prems(1) by (intro sum_list_nonneg) simp
    with 0 show ?thesis by simp
  next
    case (Suc j)
    then have "xs ! j \<le> sum_list xs"
      using Cons.IH [of j] Cons.prems by simp
    moreover have "0 \<le> x"
      using Cons.prems(1) by simp
    ultimately show ?thesis
      using Suc by simp
  qed
qed

lemma increment_pit_beans:
  assumes "\<forall>x\<in>set b. 0 \<le> sint x" and "sum_list (map sint b) < 2 ^ 31 - 1"
    and "q < length b"
  shows "sum_list (map sint (increment_pit q b)) = sum_list (map sint b) + 1 \<and>
         (\<forall>x\<in>set (increment_pit q b). 0 \<le> sint x)"
proof -
  have "map sint b ! q \<le> sum_list (map sint b)"
    using assms(1,3) by (intro nth_le_sum_list_int) simp_all
  then have up: "sint (b ! q) < 2 ^ 31 - 1"
    using assms(2,3) by simp
  have lo: "0 \<le> sint (b ! q)"
    using assms(1,3) by simp
  have "sint (b ! q + 1) = signed_take_bit 31 (sint (b ! q) + 1)"
    by (simp add: sint_word_ariths)
  also have "\<dots> = sint (b ! q) + 1"
    using lo up by (intro signed_take_bit_int_eq_self) simp_all
  finally have inc: "sint (b ! q + 1) = sint (b ! q) + 1" .
  have "sum_list (map sint (increment_pit q b)) = sum_list ((map sint b)[q := sint (b ! q) + 1])"
    by (simp add: increment_pit_def map_update inc)
  also have "\<dots> = sum_list (map sint b) + 1"
    using assms(3) by (simp add: sum_list_update_int)
  finally have "sum_list (map sint (increment_pit q b)) = sum_list (map sint b) + 1" .
  moreover have "\<forall>x\<in>set (increment_pit q b). 0 \<le> sint x"
  proof
    fix x assume "x \<in> set (increment_pit q b)"
    then have "x = b ! q + 1 \<or> x \<in> set b"
      using set_update_subset_insert [of b q "b ! q + 1"] by (auto simp: increment_pit_def)
    then show "0 \<le> sint x"
      using assms(1) inc lo by auto
  qed
  ultimately show ?thesis by simp
qed

lemma fold_increment_beans:
  assumes "\<forall>x\<in>set b. 0 \<le> sint x"
    and "sum_list (map sint b) + int (length ks) < 2 ^ 31"
    and "\<forall>k\<in>set ks. f k < length b"
  shows "sum_list (map sint (fold (\<lambda>k. increment_pit (f k)) ks b)) =
           sum_list (map sint b) + int (length ks) \<and>
         (\<forall>x\<in>set (fold (\<lambda>k. increment_pit (f k)) ks b). 0 \<le> sint x)"
  using assms
proof (induction ks arbitrary: b)
  case Nil
  then show ?case by simp
next
  case (Cons k ks)
  have step: "sum_list (map sint (increment_pit (f k) b)) = sum_list (map sint b) + 1 \<and>
      (\<forall>x\<in>set (increment_pit (f k) b). 0 \<le> sint x)"
    using Cons.prems by (intro increment_pit_beans) simp_all
  then have "sum_list (map sint (fold (\<lambda>k. increment_pit (f k)) ks (increment_pit (f k) b))) =
           sum_list (map sint (increment_pit (f k) b)) + int (length ks) \<and>
         (\<forall>x\<in>set (fold (\<lambda>k. increment_pit (f k)) ks (increment_pit (f k) b)). 0 \<le> sint x)"
    using Cons.prems by (intro Cons.IH) simp_all
  with step show ?case by simp
qed

lemma DoApplyAction_conserved:
  assumes "conserved s" and "0 \<le> p" and "p < 14"
  shows "\<exists>s'. DoApplyAction p s = Inr s' \<and> conserved s'"
proof -
  let ?n = "sint (board s ! nat p)"
  let ?b0 = "(board s)[nat p := 0]"
  let ?b1 = "fold (\<lambda>k. increment_pit (ring_position (nat p) k)) [0..<nat ?n] ?b0"
  have len: "length (board s) = 14" and tot: "sum_list (map sint (board s)) = 48"
    and nonneg: "\<forall>x\<in>set (board s). 0 \<le> sint x"
    using assms(1) by (simp_all add: conserved_def kTotalPits_def total_beans_def)
  have p: "nat p < length (board s)"
    using assms(2,3) len by simp
  have n: "0 \<le> ?n"
    using nonneg p by simp
  have "sum_list (map sint ?b0) = sum_list ((map sint (board s))[nat p := 0])"
    by (simp add: map_update)
  also have "\<dots> = 48 - ?n"
    using p tot by (simp add: sum_list_update_int)
  finally have tot0: "sum_list (map sint ?b0) = 48 - ?n" .
  have nonneg0: "\<forall>x\<in>set ?b0. 0 \<le> sint x"
  proof
    fix x assume "x \<in> set ?b0"
    then have "x = 0 \<or> x \<in> set (board s)"
      using set_update_subset_insert [of "board s" "nat p" 0] by auto
    then show "0 \<le> sint x"
      using nonneg by auto
  qed
  have "sum_list (map sint ?b1) = sum_list (map sint ?b0) + int (length [0..<nat ?n]) \<and>
      (\<forall>x\<in>set ?b1. 0 \<le> sint x)"
    using nonneg0 tot0 n len by (intro fold_increment_beans) (simp_all add: ring_position_def)
  then have "sum_list (map sint ?b1) = 48" and "\<forall>x\<in>set ?b1. 0 \<le> sint x"
    using tot0 n by simp_all
  moreover have "sow_loop ?b0 p 0 ?n = ?b1"
    using assms(2) by (simp add: sow_loop_fold)
  ultimately show ?thesis
    using assms(2,3) len
    by (simp add: DoApplyAction_def Let_def conserved_def total_beans_def kTotalPits_def)
qed

subsection \<open>The scans of IsTerminal and LegalActions\<close>

lemma player_0_has_moves_iff:
  "player_0_has_moves b i \<longleftrightarrow> (\<exists>j. i \<le> j \<and> j < kNumPits \<and> 0 < sint (b ! (j + 1)))"
proof (induction b i rule: player_0_has_moves.induct)
  case (1 b i)
  show ?case
  proof (cases "i < kNumPits")
    case False
    then show ?thesis by (simp add: player_0_has_moves.simps [of b i])
  next
    case True
    show ?thesis
    proof (cases "0 < sint (b ! (i + 1))")
      case True
      with \<open>i < kNumPits\<close> show ?thesis
        by (auto simp: player_0_has_moves.simps [of b i])
    next
      case False
      with \<open>i < kNumPits\<close> have "player_0_has_moves b i = player_0_has_moves b (i + 1)"
        by (simp add: player_0_has_moves.simps [of b i])
      also have "\<dots> \<longleftrightarrow> (\<exists>j. i + 1 \<le> j \<and> j < kNumPits \<and> 0 < sint (b ! (j + 1)))"
        using "1.IH" \<open>i < kNumPits\<close> False by simp
      also have "\<dots> \<longleftrightarrow> (\<exists>j. i \<le> j \<and> j < kNumPits \<and> 0 < sint (b ! (j + 1)))"
        using False by (metis Suc_eq_plus1 Suc_leD Suc_leI le_neq_implies_less)
      finally show ?thesis .
    qed
  qed
qed

lemma player_1_has_moves_iff:
  "player_1_has_moves b i \<longleftrightarrow>
     (\<exists>j. i \<le> j \<and> j < kNumPits \<and> 0 < sint (b ! (length b - 1 - j)))"
proof (induction b i rule: player_1_has_moves.induct)
  case (1 b i)
  show ?case
  proof (cases "i < kNumPits")
    case False
    then show ?thesis by (simp add: player_1_has_moves.simps [of b i])
  next
    case True
    show ?thesis
    proof (cases "0 < sint (b ! (length b - 1 - i))")
      case True
      with \<open>i < kNumPits\<close> show ?thesis
        by (auto simp: player_1_has_moves.simps [of b i])
    next
      case False
      with \<open>i < kNumPits\<close> have "player_1_has_moves b i = player_1_has_moves b (i + 1)"
        by (simp add: player_1_has_moves.simps [of b i])
      also have "\<dots> \<longleftrightarrow> (\<exists>j. i + 1 \<le> j \<and> j < kNumPits \<and> 0 < sint (b ! (length b - 1 - j)))"
        using "1.IH" \<open>i < kNumPits\<close> False by simp
      also have "\<dots> \<longleftrightarrow> (\<exists>j. i \<le> j \<and> j < kNumPits \<and> 0 < sint (b ! (length b - 1 - j)))"
        using False by (metis Suc_eq_plus1 Suc_leD Suc_leI le_neq_implies_less)
      finally show ?thesis .
    qed
  qed
qed

lemma row0_positions: "(\<exists>j<kNumPits. P (j + 1)) \<longleftrightarrow> (\<exists>i\<in>{1..6}. P i)"
proof
  assume "\<exists>j<kNumPits. P (j + 1)"
  then obtain j where "j < 6" "P (j + 1)" by (auto simp: kNumPits_def)
  then show "\<exists>i\<in>{1..6}. P i" by (intro bexI [of _ "j + 1"]) auto
next
  assume "\<exists>i\<in>{1..6}. P i"
  then obtain i where "1 \<le> i" "i \<le> 6" "P i" by auto
  then have "i - 1 < kNumPits" "P ((i - 1) + 1)" by (auto simp: kNumPits_def)
  then show "\<exists>j<kNumPits. P (j + 1)" by blast
qed

lemma row1_positions: "(\<exists>j<kNumPits. P (14 - 1 - j)) \<longleftrightarrow> (\<exists>i\<in>{8..13}. P i)"
proof
  assume "\<exists>j<kNumPits. P (14 - 1 - j)"
  then obtain j where "j < 6" "P (14 - 1 - j)" by (auto simp: kNumPits_def)
  then show "\<exists>i\<in>{8..13}. P i" by (intro bexI [of _ "14 - 1 - j"]) auto
next
  assume "\<exists>i\<in>{8..13}. P i"
  then obtain i where i: "8 \<le> i" "i \<le> 13" "P i" by auto
  then have "13 - i < kNumPits" "14 - 1 - (13 - i) = i" by (auto simp: kNumPits_def)
  with i show "\<exists>j<kNumPits. P (14 - 1 - j)" by metis
qed

lemma IsTerminal_rows:
  assumes "length (board s) = kTotalPits"
  shows "IsTerminal s \<longleftrightarrow>
           (\<forall>i\<in>{1..6}. \<not> 0 < sint (board s ! i)) \<or> (\<forall>i\<in>{8..13}. \<not> 0 < sint (board s ! i))"
proof -
  have "player_0_has_moves (board s) 0 \<longleftrightarrow> (\<exists>i\<in>{1..6}. 0 < sint (board s ! i))"
    using row0_positions [of "\<lambda>i. 0 < sint (board s ! i)"]
    by (simp add: player_0_has_moves_iff)
  moreover have "player_1_has_moves (board s) 0 \<longleftrightarrow> (\<exists>i\<in>{8..13}. 0 < sint (board s ! i))"
    using row1_positions [of "\<lambda>i. 0 < sint (board s ! i)"] assms
    by (simp add: player_1_has_moves_iff kTotalPits_def)
  ultimately show ?thesis
    by (auto simp: IsTerminal_def)
qed

lemma fold_push_back:
  "fold (\<lambda>i moves. if P i then moves @ [f i] else moves) xs acc = acc @ map f (filter P xs)"
  by (induction xs arbitrary: acc) auto

lemma LegalActions_scan:
  assumes "length (board s) = kTotalPits"
  shows "LegalActions s =
           (if IsTerminal s then []
            else if current_player s = 0 then nonempty_pits s [1, 2, 3, 4, 5, 6]
            else nonempty_pits s [13, 12, 11, 10, 9, 8])"
proof -
  have row0: "[1, 2, 3, 4, 5, 6] = map (\<lambda>i. int (i + 1)) [0..<kNumPits]"
    by (simp add: kNumPits_def upt_conv_Cons)
  have row1: "[13, 12, 11, 10, 9, 8] = map (\<lambda>i. int (length (board s) - 1 - i)) [0..<kNumPits]"
    using assms by (simp add: kNumPits_def kTotalPits_def upt_conv_Cons)
  have "nonempty_pits s [1, 2, 3, 4, 5, 6] =
          map (\<lambda>i. int (i + 1)) (filter (\<lambda>i. 0 < sint (board s ! (i + 1))) [0..<kNumPits])"
    unfolding nonempty_pits_def row0 by (simp add: filter_map comp_def nat_add_distrib)
  moreover have "nonempty_pits s [13, 12, 11, 10, 9, 8] =
          map (\<lambda>i. int (length (board s) - 1 - i))
            (filter (\<lambda>i. 0 < sint (board s ! (length (board s) - 1 - i))) [0..<kNumPits])"
    unfolding nonempty_pits_def row1 by (simp add: filter_map comp_def nat_add_distrib)
  ultimately show ?thesis
    by (simp add: LegalActions_def fold_push_back)
qed

lemma LegalActions_range:
  assumes "length (board s) = kTotalPits" and "a \<in> set (LegalActions s)"
  shows "0 \<le> a \<and> a < 14"
proof -
  have "set (LegalActions s) \<subseteq> {1, 2, 3, 4, 5, 6, 8, 9, 10, 11, 12, 13}"
    by (auto simp: LegalActions_scan [OF assms(1)] nonempty_pits_def)
  with assms(2) show ?thesis by auto
qed

lemma play_conserved: "conserved s \<Longrightarrow> play s as = Some s' \<Longrightarrow> conserved s'"
proof (induction as arbitrary: s)
  case Nil
  then show ?case by simp
next
  case (Cons a as)
  from Cons.prems(2) have legal: "a \<in> set (LegalActions s)"
    by (simp split: if_splits)
  then have "0 \<le> a \<and> a < 14"
    using Cons.prems(1) LegalActions_range [of s a] by (simp add: conserved_def)
  then obtain t where t: "DoApplyAction a s = Inr t" "conserved t"
    using DoApplyAction_conserved [OF Cons.prems(1)] by blast
  with Cons.prems(2) legal have "play t as = Some s'"
    by simp
  with t(2) show ?case
    by (rule Cons.IH)
qed

lemma InitBoard_conserved:
  assumes "length (board s0) = kTotalPits"
  shows "conserved (InitBoard s0)"
proof -
  have "board (InitBoard s0) = (replicate 14 4)[0 := 0, 7 := 0]"
    using assms by (simp add: InitBoard_def kTotalPits_def)
  also have "\<dots> = [0, 4, 4, 4, 4, 4, 4, 0, 4, 4, 4, 4, 4, 4]"
    by code_simp
  finally show ?thesis
    by (simp add: conserved_def total_beans_def kTotalPits_def)
qed

subsection \<open>The sums of Returns\<close>

lemma foldl_plus_sum_list: "foldl (+) a xs = a + sum_list xs" for a :: cint
  by (induction xs arbitrary: a) (simp_all add: add.assoc)

lemma sum_list_word_of_int: "sum_list xs = word_of_int (sum_list (map sint xs))"
  for xs :: "cint list"
  by (induction xs) simp_all

lemma slice_nth:
  "m + n \<le> length b \<Longrightarrow> take n (drop m b) = map ((!) b) [m..<m + n]"
  by (simp add: list_eq_iff_nth_eq)

lemma player_0_bean_sum_score0:
  assumes "length (board s) = kTotalPits"
  shows "player_0_bean_sum s = word_of_int (score0 s)"
proof -
  have "take 7 (drop 1 (board s)) = map ((!) (board s)) [1..<1 + 7]"
    using assms by (intro slice_nth) (simp add: kTotalPits_def)
  then have "accumulate (board s) 1 8 0 = sum_list (map ((!) (board s)) [1..<8])"
    by (simp add: accumulate_def foldl_plus_sum_list)
  also have "\<dots> = word_of_int (sum_list (map sint (map ((!) (board s)) [1..<8])))"
    by (rule sum_list_word_of_int)
  finally show ?thesis
    by (simp add: player_0_bean_sum_def kTotalPits_def score0_def comp_def)
qed

lemma player_1_bean_sum_score1:
  assumes "length (board s) = kTotalPits"
  shows "player_1_bean_sum s = word_of_int (score1 s)"
proof -
  have "take 6 (drop 8 (board s)) = map ((!) (board s)) [8..<8 + 6]"
    using assms by (intro slice_nth) (simp add: kTotalPits_def)
  then have "accumulate (board s) 8 14 0 = sum_list (map ((!) (board s)) [8..<14])"
    by (simp add: accumulate_def foldl_plus_sum_list)
  also have "\<dots> = word_of_int (sum_list (map sint (map ((!) (board s)) [8..<14])))"
    by (rule sum_list_word_of_int)
  finally show ?thesis
    using assms by (simp add: player_1_bean_sum_def kTotalPits_def score1_def comp_def)
qed

lemma fits_cint_wrap: "fits_cint x \<Longrightarrow> sint (word_of_int x :: cint) = x"
  by (simp add: fits_cint_def sint_sbintrunc' signed_take_bit_int_eq_self)

lemma Returns_cases: "Returns s = [1, - 1] \<or> Returns s = [- 1, 1] \<or> Returns s = [0, 0]"
  by (simp add: Returns_def)

lemma Returns_scores:
  assumes "length (board s) = kTotalPits" and "fits_cint (score0 s)" and "fits_cint (score1 s)"
  shows "Returns s =
           (if score0 s > score1 s then [1, - 1]
            else if score0 s < score1 s then [- 1, 1]
            else [0, 0])"
  using assms
  by (simp add: Returns_def player_0_bean_sum_score0 player_1_bean_sum_score1 fits_cint_wrap)

lemma Returns_wrapped:
  assumes "length (board s) = kTotalPits"
  shows "Returns s =
           (if as_cint (score0 s) > as_cint (score1 s) then [1, - 1]
            else if as_cint (score0 s) < as_cint (score1 s) then [- 1, 1]
            else [0, 0])"
  using assms
  by (simp add: Returns_def player_0_bean_sum_score0 player_1_bean_sum_score1 as_cint_def)

lemma conserved_scores:
  assumes "conserved s"
  shows "score0 s + score1 s = 48 \<and> 0 \<le> score0 s \<and> 0 \<le> score1 s"
proof -
  have len: "length (board s) = 14" and tot: "sum_list (map sint (board s)) = 48"
    and nonneg: "\<forall>x\<in>set (board s). 0 \<le> sint x"
    using assms by (simp_all add: conserved_def kTotalPits_def total_beans_def)
  have "map sint (board s) = map (\<lambda>i. sint (board s ! i)) [0..<14]"
    using len by (simp add: list_eq_iff_nth_eq)
  also have "[0..<14] = [0] @ [1..<8] @ [8..<14]"
    by (simp add: upt_conv_Cons)
  finally have "sum_list (map sint (board s)) = score0 s + score1 s"
    by (simp add: score0_def score1_def)
  moreover have "0 \<le> sint (board s ! i)" if "i < 14" for i
    using nonneg len that by simp
  then have "0 \<le> score0 s" and "0 \<le> score1 s"
    unfolding score0_def score1_def by (auto intro!: sum_list_nonneg add_nonneg_nonneg)
  ultimately show ?thesis
    using tot by simp
qed

lemma conserved_fits: "conserved s \<Longrightarrow> fits_cint (score0 s) \<and> fits_cint (score1 s)"
  using conserved_scores [of s] by (simp add: fits_cint_def)

subsection \<open>Conservation of beans\<close>

text \<open>
  Claim C1. Every state reached from an initialised board of 14 pits by legal actions has
  14 pits whose counts add up to 48 and are not negative; and \<open>DoApplyAction\<close> with a legal
  action, applied to a state with these properties, returns a state that has them again.
\<close>

theorem bean_conservation:
  "(length (board s0) = kTotalPits \<and> play (InitBoard s0) as = Some s \<longrightarrow>
      length (board s) = kTotalPits \<and> total_beans s = 48 \<and> (\<forall>x\<in>set (board s). 0 \<le> sint x)) \<and>
   (conserved t \<and> a \<in> set (LegalActions t) \<longrightarrow>
      (\<exists>t'. DoApplyAction a t = Inr t' \<and> conserved t'))"
proof (intro conjI impI)
  assume "length (board s0) = kTotalPits \<and> play (InitBoard s0) as = Some s"
  then have "conserved s"
    using play_conserved [of "InitBoard s0" as s] InitBoard_conserved [of s0] by simp
  then show "length (board s) = kTotalPits" "total_beans s = 48" "\<forall>x\<in>set (board s). 0 \<le> sint x"
    by (simp_all add: conserved_def)
next
  assume h: "conserved t \<and> a \<in> set (LegalActions t)"
  then have "0 \<le> a \<and> a < 14"
    using LegalActions_range [of t a] by (simp add: conserved_def)
  with h show "\<exists>t'. DoApplyAction a t = Inr t' \<and> conserved t'"
    by (simp add: DoApplyAction_conserved)
qed

theorem bean_conservation_witness:
  "play NewInitialState [3, 1] =
     Some \<lparr>board = [0, 0, 5, 1, 6, 6, 5, 1, 4, 4, 4, 4, 4, 4], current_player = 1,
             num_moves = 2, history = [], move_number = 0\<rparr> \<and>
   total_beans \<lparr>board = [0, 0, 5, 1, 6, 6, 5, 1, 4, 4, 4, 4, 4, 4], current_player = 1,
             num_moves = 2, history = [], move_number = 0\<rparr> = 48 \<and>
   list_all (\<lambda>x. 0 \<le> sint x)
     (board \<lparr>board = [0, 0, 5, 1, 6, 6, 5, 1, 4, 4, 4, 4, 4, 4], current_player = 1,
             num_moves = 2, history = [], move_number = 0\<rparr>) \<and>
   13 \<in> set (LegalActions \<lparr>board = [0, 0, 5, 1, 6, 6, 5, 1, 4, 4, 4, 4, 4, 4],
             current_player = 1, num_moves = 2, history = [], move_number = 0\<rparr>) \<and>
   (\<exists>t'. DoApplyAction 13 \<lparr>board = [0, 0, 5, 1, 6, 6, 5, 1, 4, 4, 4, 4, 4, 4],
             current_player = 1, num_moves = 2, history = [], move_number = 0\<rparr> = Inr t' \<and>
         total_beans t' = 48)"
proof -
  let ?init = "\<lparr>board = replicate kTotalPits 0, current_player = 0, num_moves = 0,
               history = [], move_number = 0 :: cint\<rparr>"
  let ?s = "\<lparr>board = [0, 0, 5, 1, 6, 6, 5, 1, 4, 4, 4, 4, 4, 4], current_player = 1,
             num_moves = 2, history = [], move_number = 0 :: cint\<rparr>"
  have len: "length (board ?init) = kTotalPits"
    by simp
  have run: "play NewInitialState [3, 1] = Some ?s"
    by code_simp
  then have run0: "play (InitBoard ?init) [3, 1] = Some ?s"
    by (simp add: NewInitialState_def)
  have legal: "13 \<in> set (LegalActions ?s)"
    by code_simp
  note fact = bean_conservation [of ?init "[3, 1]" ?s ?s 13]
  from fact len run0
  have inv: "length (board ?s) = kTotalPits \<and> total_beans ?s = 48 \<and> (\<forall>x\<in>set (board ?s). 0 \<le> sint x)"
    by blast
  then have "conserved ?s"
    unfolding conserved_def by blast
  with fact legal obtain t' where "DoApplyAction 13 ?s = Inr t'" and "conserved t'"
    by blast
  then have "\<exists>t'. DoApplyAction 13 ?s = Inr t' \<and> total_beans t' = 48"
    by (auto simp: conserved_def)
  moreover have "list_all (\<lambda>x. 0 \<le> sint x) (board ?s)"
    unfolding list_all_iff using inv by blast
  moreover have "total_beans ?s = 48"
    using inv by blast
  ultimately show ?thesis
    using run legal by (intro conjI)
qed

subsection \<open>The sowing algorithm\<close>

text \<open>
  Claim C2. For a pit \<open>p\<close> of the ring holding \<open>n\<close> beans, \<open>DoApplyAction\<close> returns a state whose
  board is the one the specification describes: pit \<open>p\<close> set to 0, then the pits at the ring
  positions \<open>(p + i + 1) mod 14\<close> for \<open>i\<close> from \<open>0\<close> to \<open>n - 1\<close> incremented in turn. Every pit
  \<open>q\<close> of the ring, the two stores 0 and 7 included, ends with its count (0 for \<open>p\<close> itself)
  plus the number of these positions that are \<open>q\<close>: no position is skipped.
\<close>

theorem sowing:
  assumes "length (board s) = kTotalPits" and "0 \<le> p" and "p < 14"
    and "n = nat (sint (board s ! nat p))"
  shows "\<exists>s'. DoApplyAction p s = Inr s' \<and>
           board s' = sow_spec (board s) (nat p) \<and>
           (\<forall>q<14. board s' ! q =
                     (if q = nat p then 0 else board s ! q) + of_nat (visits (nat p) n q))"
proof -
  let ?b0 = "(board s)[nat p := 0]"
  have "sow_loop ?b0 p 0 (sint (board s ! nat p)) =
      fold (\<lambda>k. increment_pit (ring_position (nat p) k)) [0..<n] ?b0"
    using assms(2,4) by (simp add: sow_loop_fold)
  moreover have "fold (\<lambda>k. increment_pit (ring_position (nat p) k)) [0..<n] ?b0 ! q =
      (if q = nat p then 0 else board s ! q) + of_nat (visits (nat p) n q)" if "q < 14" for q
  proof -
    have "?b0 ! q = (if q = nat p then 0 else board s ! q)"
      using assms(1) that by (simp add: kTotalPits_def nth_list_update)
    moreover have "length ?b0 = 14"
      using assms(1) by (simp add: kTotalPits_def)
    ultimately show ?thesis
      using that by (simp add: nth_fold_increment)
  qed
  ultimately show ?thesis
    using assms by (simp add: DoApplyAction_def Let_def kTotalPits_def sow_spec_def)
qed

text \<open>
  Eight beans sown from pit 6 go to the pits 7 to 13 and 0: both stores receive one.
\<close>

theorem sowing_witness:
  "length (board \<lparr>board = [0, 4, 4, 4, 4, 4, 8, 0, 4, 4, 4, 4, 4, 0], current_player = 0,
             num_moves = 6, history = [], move_number = 0\<rparr>) = kTotalPits \<and>
   (\<exists>s'. DoApplyAction 6 \<lparr>board = [0, 4, 4, 4, 4, 4, 8, 0, 4, 4, 4, 4, 4, 0],
             current_player = 0, num_moves = 6, history = [], move_number = 0\<rparr> = Inr s' \<and>
      board s' = [1, 4, 4, 4, 4, 4, 0, 1, 5, 5, 5, 5, 5, 1])"
proof -
  let ?s = "\<lparr>board = [0, 4, 4, 4, 4, 4, 8, 0, 4, 4, 4, 4, 4, 0], current_player = 0,
             num_moves = 6, history = [], move_number = 0 :: cint\<rparr>"
  have len: "length (board ?s) = kTotalPits"
    by (simp add: kTotalPits_def)
  have n: "8 = nat (sint (board ?s ! nat 6))"
    by simp
  have "sow_spec (board ?s) (nat 6) = [1, 4, 4, 4, 4, 4, 0, 1, 5, 5, 5, 5, 5, 1]"
    by code_simp
  then have "\<exists>s'. DoApplyAction 6 ?s = Inr s' \<and>
      board s' = [1, 4, 4, 4, 4, 4, 0, 1, 5, 5, 5, 5, 5, 1]"
    using sowing [OF len _ _ n] by auto
  with len show ?thesis
    by (intro conjI)
qed

subsection \<open>Turn continuation\<close>

text \<open>
  Claim C3. Let \<open>n\<close> be the number of beans in pit \<open>p\<close>, a pit of the ring. \<open>DoApplyAction\<close>
  returns a state; if \<open>(p + n) mod 14\<close> is the home pit of the player to move, the same
  player moves again, otherwise the player to move becomes \<open>1 - current_player\<close>; the move
  counter is incremented in both cases. The home pit of player 0 is 7, that of player 1
  is 0.
\<close>

theorem turn_continuation:
  assumes "length (board s) = kTotalPits" and "0 \<le> p" and "p < 14"
    and "n = sint (board s ! nat p)" and "0 \<le> n"
  shows "(\<exists>s'. DoApplyAction p s = Inr s' \<and>
           current_player s' =
             (if (p + n) mod 14 = GetPlayerHomePit (current_player s) then current_player s
              else 1 - current_player s) \<and>
           num_moves s' = num_moves s + 1) \<and>
         GetPlayerHomePit 0 = 7 \<and> GetPlayerHomePit 1 = 0"
proof -
  have "(p + n) smod int kTotalPits = (p + n) mod 14"
    using assms(2,5) by (simp add: ring_pos_mod)
  then have "\<exists>s'. DoApplyAction p s = Inr s' \<and>
           current_player s' =
             (if (p + n) mod 14 = GetPlayerHomePit (current_player s) then current_player s
              else 1 - current_player s) \<and>
           num_moves s' = num_moves s + 1"
    using assms by (simp add: DoApplyAction_def Let_def kTotalPits_def)
  moreover have "GetPlayerHomePit 0 = 7" "GetPlayerHomePit 1 = 0"
    by (simp_all add: GetPlayerHomePit_def kTotalPits_def)
  ultimately show ?thesis by simp
qed

theorem turn_continuation_witness:
  "length (board NewInitialState) = kTotalPits \<and> (0::int) \<le> 3 \<and> (3::int) < 14 \<and>
   (4::int) = sint (board NewInitialState ! nat 3) \<and> (0::int) \<le> 4 \<and>
   (\<exists>s'. DoApplyAction 3 NewInitialState = Inr s' \<and> current_player s' = 0 \<and>
      num_moves s' = 1)"
  using turn_continuation [of NewInitialState 3 4]
  by (simp add: NewInitialState_def InitBoard_def kTotalPits_def GetPlayerHomePit_def)

subsection \<open>The order of the legal actions\<close>

text \<open>
  Claim C4, amended. For a state that is not terminal, \<open>LegalActions\<close> returns the pits
  with at least one bean among 1 to 6 in increasing order when player 0 is to move, and
  among 8 to 13 in decreasing order, from 13 down to 8, when player 1 is to move.
\<close>

theorem LegalActions_order:
  assumes "length (board s) = kTotalPits" and "\<not> IsTerminal s"
  shows "LegalActions s =
           (if current_player s = 0 then nonempty_pits s [1, 2, 3, 4, 5, 6]
            else nonempty_pits s [13, 12, 11, 10, 9, 8])"
  using assms by (simp add: LegalActions_scan)

theorem LegalActions_order_witness:
  "length (board \<lparr>board = [0, 0, 5, 5, 5, 5, 4, 0, 4, 4, 4, 4, 4, 4], current_player = 1,
             num_moves = 1, history = [(0, 1)], move_number = 1\<rparr>) = kTotalPits \<and>
   \<not> IsTerminal \<lparr>board = [0, 0, 5, 5, 5, 5, 4, 0, 4, 4, 4, 4, 4, 4], current_player = 1,
             num_moves = 1, history = [(0, 1)], move_number = 1\<rparr> \<and>
   LegalActions \<lparr>board = [0, 0, 5, 5, 5, 5, 4, 0, 4, 4, 4, 4, 4, 4], current_player = 1,
             num_moves = 1, history = [(0, 1)], move_number = 1\<rparr> = [13, 12, 11, 10, 9, 8]"
proof -
  have nt: "\<not> IsTerminal \<lparr>board = [0, 0, 5, 5, 5, 5, 4, 0, 4, 4, 4, 4, 4, 4], current_player = 1,
             num_moves = 1, history = [(0, 1)], move_number = 1\<rparr>"
    by (simp add: IsTerminal_def player_0_has_moves.simps player_1_has_moves.simps kNumPits_def)
  show ?thesis
    using nt LegalActions_order [of "\<lparr>board = [0, 0, 5, 5, 5, 5, 4, 0, 4, 4, 4, 4, 4, 4],
             current_player = 1, num_moves = 1, history = [(0, 1)], move_number = 1\<rparr>"]
    by (simp add: kTotalPits_def nonempty_pits_def)
qed

text \<open>
  After the first move 1 of player 0, player 1 is to move and every pit from 8 to 13 holds
  four beans: \<open>LegalActions\<close> lists them from 13 down to 8, not in increasing order.
\<close>

theorem LegalActions_ascending_counterexample:
  "play NewInitialState [1] =
     Some \<lparr>board = [0, 0, 5, 5, 5, 5, 4, 0, 4, 4, 4, 4, 4, 4], current_player = 1,
             num_moves = 1, history = [], move_number = 0\<rparr> \<and>
   \<not> IsTerminal \<lparr>board = [0, 0, 5, 5, 5, 5, 4, 0, 4, 4, 4, 4, 4, 4], current_player = 1,
             num_moves = 1, history = [], move_number = 0\<rparr> \<and>
   LegalActions \<lparr>board = [0, 0, 5, 5, 5, 5, 4, 0, 4, 4, 4, 4, 4, 4], current_player = 1,
             num_moves = 1, history = [], move_number = 0\<rparr> = [13, 12, 11, 10, 9, 8] \<and>
   LegalActions \<lparr>board = [0, 0, 5, 5, 5, 5, 4, 0, 4, 4, 4, 4, 4, 4], current_player = 1,
             num_moves = 1, history = [], move_number = 0\<rparr> \<noteq>
     nonempty_pits \<lparr>board = [0, 0, 5, 5, 5, 5, 4, 0, 4, 4, 4, 4, 4, 4], current_player = 1,
             num_moves = 1, history = [], move_number = 0\<rparr> [8, 9, 10, 11, 12, 13]"
  by code_simp

subsection \<open>The terminal predicate\<close>

text \<open>
  Claim C5. On a board whose pit counts are not negative, \<open>IsTerminal\<close> holds if and only if
  the pits 1 to 6 are all empty or the pits 8 to 13 are all empty.
\<close>

theorem IsTerminal_iff:
  assumes "length (board s) = kTotalPits"
    and "\<forall>x\<in>set (board s). 0 \<le> sint x"
  shows "IsTerminal s \<longleftrightarrow>
           (\<forall>i\<in>{1..6}. board s ! i = 0) \<or> (\<forall>i\<in>{8..13}. board s ! i = 0)"
proof -
  have "\<not> 0 < sint (board s ! i) \<longleftrightarrow> board s ! i = 0" if "i < 14" for i
  proof -
    have "0 \<le> sint (board s ! i)" using assms that by (simp add: kTotalPits_def)
    then have "\<not> 0 < sint (board s ! i) \<longleftrightarrow> sint (board s ! i) = 0" by linarith
    then show ?thesis by (simp add: signed_eq_0_iff)
  qed
  then have "(\<forall>i\<in>{1..6}. \<not> 0 < sint (board s ! i)) \<longleftrightarrow> (\<forall>i\<in>{1..6}. board s ! i = 0)"
    and "(\<forall>i\<in>{8..13}. \<not> 0 < sint (board s ! i)) \<longleftrightarrow> (\<forall>i\<in>{8..13}. board s ! i = 0)"
    by auto
  then show ?thesis
    using IsTerminal_rows [OF assms(1)] by simp
qed

theorem IsTerminal_iff_witness:
  "length (board \<lparr>board = [10, 0, 0, 0, 0, 0, 0, 20, 3, 3, 3, 3, 3, 3], current_player = 1,
               num_moves = 30, history = [(0, 6)], move_number = 30\<rparr>) = kTotalPits \<and>
   list_all (\<lambda>x. 0 \<le> sint x)
     (board \<lparr>board = [10, 0, 0, 0, 0, 0, 0, 20, 3, 3, 3, 3, 3, 3], current_player = 1,
               num_moves = 30, history = [(0, 6)], move_number = 30\<rparr>) \<and>
   IsTerminal \<lparr>board = [10, 0, 0, 0, 0, 0, 0, 20, 3, 3, 3, 3, 3, 3], current_player = 1,
               num_moves = 30, history = [(0, 6)], move_number = 30\<rparr> \<and>
   ((\<forall>i\<in>{1..6}. board \<lparr>board = [10, 0, 0, 0, 0, 0, 0, 20, 3, 3, 3, 3, 3, 3],
               current_player = 1, num_moves = 30, history = [(0, 6)],
               move_number = 30\<rparr> ! i = 0) \<or>
    (\<forall>i\<in>{8..13}. board \<lparr>board = [10, 0, 0, 0, 0, 0, 0, 20, 3, 3, 3, 3, 3, 3],
               current_player = 1, num_moves = 30, history = [(0, 6)],
               move_number = 30\<rparr> ! i = 0))"
proof -
  let ?s = "\<lparr>board = [10, 0, 0, 0, 0, 0, 0, 20, 3, 3, 3, 3, 3, 3], current_player = 1,
               num_moves = 30, history = [(0, 6)], move_number = 30 :: cint\<rparr>"
  have len: "length (board ?s) = kTotalPits"
    by (simp add: kTotalPits_def)
  have nonneg: "\<forall>x\<in>set (board ?s). 0 \<le> sint x"
    by simp
  have "IsTerminal ?s"
    by (simp add: IsTerminal_def player_0_has_moves.simps player_1_has_moves.simps kNumPits_def)
  moreover from this have "(\<forall>i\<in>{1..6}. board ?s ! i = 0) \<or> (\<forall>i\<in>{8..13}. board ?s ! i = 0)"
    using IsTerminal_iff [OF len nonneg] by (rule iffD1 [rotated])
  moreover have "list_all (\<lambda>x. 0 \<le> sint x) (board ?s)"
    by simp
  ultimately show ?thesis
    using len by (intro conjI)
qed

subsection \<open>Scoring\<close>

text \<open>
  Claim C6. In a terminal state whose two scores are in the range of a C++ \<open>int\<close>,
  \<open>Returns\<close> yields \<open>[1, -1]\<close> if \<open>score0\<close> is greater than \<open>score1\<close>, \<open>[-1, 1]\<close> if it is less,
  and \<open>[0, 0]\<close> if the two are equal, and so one of these three pairs. By
  \<open>conserved_fits\<close> the scores are in that range on every board of 48 beans without a
  negative count.
\<close>

theorem Returns_terminal:
  assumes "length (board s) = kTotalPits" and "IsTerminal s"
    and "fits_cint (score0 s)" and "fits_cint (score1 s)"
  shows "Returns s =
           (if score0 s > score1 s then [1, - 1]
            else if score0 s < score1 s then [- 1, 1]
            else [0, 0]) \<and>
         (Returns s = [1, - 1] \<or> Returns s = [- 1, 1] \<or> Returns s = [0, 0])"
  using assms(1,3,4) by (simp add: Returns_scores Returns_cases)

theorem Returns_terminal_witness:
  "length (board \<lparr>board = [12, 0, 0, 0, 0, 0, 0, 30, 1, 1, 1, 1, 1, 1], current_player = 1,
             num_moves = 40, history = [], move_number = 0\<rparr>) = kTotalPits \<and>
   IsTerminal \<lparr>board = [12, 0, 0, 0, 0, 0, 0, 30, 1, 1, 1, 1, 1, 1], current_player = 1,
             num_moves = 40, history = [], move_number = 0\<rparr> \<and>
   score0 \<lparr>board = [12, 0, 0, 0, 0, 0, 0, 30, 1, 1, 1, 1, 1, 1], current_player = 1,
             num_moves = 40, history = [], move_number = 0\<rparr> = 30 \<and>
   score1 \<lparr>board = [12, 0, 0, 0, 0, 0, 0, 30, 1, 1, 1, 1, 1, 1], current_player = 1,
             num_moves = 40, history = [], move_number = 0\<rparr> = 18 \<and>
   Returns \<lparr>board = [12, 0, 0, 0, 0, 0, 0, 30, 1, 1, 1, 1, 1, 1], current_player = 1,
             num_moves = 40, history = [], move_number = 0\<rparr> = [1, - 1]"
proof -
  let ?s = "\<lparr>board = [12, 0, 0, 0, 0, 0, 0, 30, 1, 1, 1, 1, 1, 1], current_player = 1,
             num_moves = 40, history = [], move_number = 0 :: cint\<rparr>"
  have len: "length (board ?s) = kTotalPits"
    by (simp add: kTotalPits_def)
  have trm: "IsTerminal ?s"
    by (simp add: IsTerminal_def player_0_has_moves.simps player_1_has_moves.simps kNumPits_def)
  have s0: "score0 ?s = 30"
    by (simp add: score0_def upt_conv_Cons)
  have s1: "score1 ?s = 18"
    by (simp add: score1_def upt_conv_Cons)
  have "Returns ?s = [1, - 1]"
    using Returns_terminal [OF len trm] by (simp add: s0 s1 fits_cint_def)
  then show ?thesis
    using len trm s0 s1 by (intro conjI)
qed

subsection \<open>No legal action in a terminal state\<close>

text \<open>
  Claim C7. In a terminal state \<open>LegalActions\<close> returns the empty list, whatever the pits
  of the other side hold.
\<close>

theorem terminal_no_actions: "IsTerminal s \<Longrightarrow> LegalActions s = []"
  by (simp add: LegalActions_def)

theorem terminal_no_actions_witness:
  "IsTerminal \<lparr>board = [10, 0, 0, 0, 0, 0, 0, 20, 3, 3, 3, 3, 3, 3], current_player = 1,
               num_moves = 30, history = [(0, 6)], move_number = 30\<rparr> \<and>
   LegalActions \<lparr>board = [10, 0, 0, 0, 0, 0, 0, 20, 3, 3, 3, 3, 3, 3], current_player = 1,
               num_moves = 30, history = [(0, 6)], move_number = 30\<rparr> = []"
proof -
  have "IsTerminal \<lparr>board = [10, 0, 0, 0, 0, 0, 0, 20, 3, 3, 3, 3, 3, 3], current_player = 1,
               num_moves = 30, history = [(0, 6)], move_number = 30\<rparr>"
    by (simp add: IsTerminal_def player_0_has_moves.simps player_1_has_moves.simps kNumPits_def)
  then show ?thesis
    using terminal_no_actions by blast
qed

subsection \<open>UndoAction\<close>

text \<open>
  Claim C8. On a state with a history entry to pop, \<open>UndoAction\<close> decrements the move counter
  and the move number, removes the last history entry, and leaves the board and the player
  to move as they are.
\<close>

theorem UndoAction_partial:
  assumes "history s \<noteq> []"
  shows "\<exists>s'. UndoAction player move s = Inr s' \<and>
           num_moves s' = num_moves s - 1 \<and>
           move_number s' = move_number s - 1 \<and>
           history s' = butlast (history s) \<and>
           board s' = board s \<and>
           current_player s' = current_player s"
  using assms by (simp add: UndoAction_def)

theorem UndoAction_partial_witness:
  "history \<lparr>board = [0, 0, 5, 5, 5, 5, 4, 0, 4, 4, 4, 4, 4, 4], current_player = 1,
             num_moves = 1, history = [(0, 1)], move_number = 1\<rparr> \<noteq> [] \<and>
   UndoAction 0 1 \<lparr>board = [0, 0, 5, 5, 5, 5, 4, 0, 4, 4, 4, 4, 4, 4], current_player = 1,
             num_moves = 1, history = [(0, 1)], move_number = 1\<rparr> =
     Inr \<lparr>board = [0, 0, 5, 5, 5, 5, 4, 0, 4, 4, 4, 4, 4, 4], current_player = 1,
             num_moves = 0, history = [], move_number = 0\<rparr>"
  using UndoAction_partial [of "\<lparr>board = [0, 0, 5, 5, 5, 5, 4, 0, 4, 4, 4, 4, 4, 4],
             current_player = 1, num_moves = 1, history = [(0, 1)], move_number = 1\<rparr>" 0 1]
  by (simp add: UndoAction_def)

subsection \<open>Applying an action at an empty pit\<close>

text \<open>
  Claim C9. For a pit \<open>p\<close> of the ring with no beans, \<open>DoApplyAction\<close> returns a state: the
  board is unchanged, the move counter is incremented, and the player to move becomes
  \<open>1 - current_player\<close> unless \<open>p\<close> is the home pit of the player to move.
\<close>

theorem DoApplyAction_empty_pit:
  assumes "length (board s) = kTotalPits" and "0 \<le> p" and "p < 14"
    and "board s ! nat p = 0"
  shows "\<exists>s'. DoApplyAction p s = Inr s' \<and> board s' = board s \<and>
           num_moves s' = num_moves s + 1 \<and>
           current_player s' =
             (if p = GetPlayerHomePit (current_player s) then current_player s
              else 1 - current_player s)"
proof -
  have "(board s)[nat p := 0] = board s"
    using assms(4) by (metis list_update_id)
  moreover have "(p + 0) smod int kTotalPits = p"
    using assms(2,3) by (simp add: ring_pos_self)
  ultimately show ?thesis
    using assms by (simp add: DoApplyAction_def kTotalPits_def sow_loop_done)
qed

theorem DoApplyAction_empty_pit_witness:
  "length (board NewInitialState) = kTotalPits \<and> (0::int) \<le> 0 \<and> (0::int) < 14 \<and>
   board NewInitialState ! nat 0 = 0 \<and>
   (\<exists>s'. DoApplyAction 0 NewInitialState = Inr s' \<and> board s' = board NewInitialState \<and>
      num_moves s' = num_moves NewInitialState + 1 \<and> current_player s' = 1)"
  using DoApplyAction_empty_pit [of NewInitialState 0]
  by (simp add: NewInitialState_def InitBoard_def kTotalPits_def GetPlayerHomePit_def)

subsection \<open>Returns on every state\<close>

text \<open>
  Claim C10. For every state, terminal or not, \<open>Returns\<close> yields one of \<open>[1, -1]\<close>,
  \<open>[-1, 1]\<close> and \<open>[0, 0]\<close>. On a board of 14 pits it is the comparison of \<open>score0\<close> and
  \<open>score1\<close> as C++ ints, and the comparison of the two integer sums themselves when they
  are in the range of a C++ \<open>int\<close>.
\<close>

theorem Returns_total:
  "(Returns s = [1, - 1] \<or> Returns s = [- 1, 1] \<or> Returns s = [0, 0]) \<and>
   (length (board s) = kTotalPits \<longrightarrow>
      Returns s =
        (if as_cint (score0 s) > as_cint (score1 s) then [1, - 1]
         else if as_cint (score0 s) < as_cint (score1 s) then [- 1, 1]
         else [0, 0])) \<and>
   (length (board s) = kTotalPits \<and> fits_cint (score0 s) \<and> fits_cint (score1 s) \<longrightarrow>
      Returns s =
        (if score0 s > score1 s then [1, - 1]
         else if score0 s < score1 s then [- 1, 1]
         else [0, 0]))"
  using Returns_cases [of s] Returns_wrapped [of s] Returns_scores [of s] by blast

theorem Returns_total_witness:
  "length (board NewInitialState) = kTotalPits \<and> \<not> IsTerminal NewInitialState \<and>
   score0 NewInitialState = 24 \<and> score1 NewInitialState = 24 \<and>
   Returns NewInitialState = [0, 0]"
proof -
  have len: "length (board NewInitialState) = kTotalPits"
    by (simp add: NewInitialState_def InitBoard_def kTotalPits_def)
  have nt: "\<not> IsTerminal NewInitialState"
    by (simp add: NewInitialState_def InitBoard_def kTotalPits_def IsTerminal_def
        player_0_has_moves.simps player_1_has_moves.simps kNumPits_def)
  have s0: "score0 NewInitialState = 24"
    by code_simp
  have s1: "score1 NewInitialState = 24"
    by code_simp
  have "Returns NewInitialState = [0, 0]"
    using Returns_total [of NewInitialState] len by (simp add: s0 s1 fits_cint_def)
  then show ?thesis
    using len nt s0 s1 by (intro conjI)
qed

end
